theory Spec2Isabelle
  imports Complex_Main "HOL-Library.Signed_Division"
begin

section \<open>Numbers and angles\<close>

text \<open>
  The engine computes on JavaScript numbers. They are idealised here as real numbers:
  rounding, overflow, infinities and NaN are not represented. \<open>Math.sin\<close>,
  \<open>Math.cos\<close> and \<open>Math.sqrt\<close> are the real functions; the two library
  functions below are written out over the reals.

  \<open>Math.atan2(y, x)\<close> is the angle of the point \<open>(x, y)\<close>, in \<open>(-\<pi>, \<pi>]\<close>, and
  \<open>0\<close> at the origin (the reals have one zero, so the signed-zero cases of the
  floating-point function collapse).
\<close>

definition atan2 :: "real \<Rightarrow> real \<Rightarrow> real" where
  "atan2 y x =
     (if 0 < x then arctan (y / x)
      else if x < 0 then (if 0 \<le> y then arctan (y / x) + pi else arctan (y / x) - pi)
      else if 0 < y then pi / 2
      else if y < 0 then - (pi / 2)
      else 0)"

definition hypot :: "real \<Rightarrow> real \<Rightarrow> real" where
  "hypot x y = sqrt (x\<^sup>2 + y\<^sup>2)"

text \<open>\<^verbatim>\<open>wrapAngle(theta) = Math.atan2(Math.sin(theta), Math.cos(theta))\<close>\<close>

definition wrapAngle :: "real \<Rightarrow> real" where
  "wrapAngle theta = atan2 (sin theta) (cos theta)"

section \<open>Topology builder\<close>

datatype Topology = All | Ring | ErdosRenyi

type_synonym adjacency = "nat list list"

text \<open>
  \<^verbatim>\<open>adj[i].push(v)\<close>. Every call in \<open>buildAdjacency\<close> has \<open>i < N\<close>, the number of
  rows \<open>adj\<close> was created with.
\<close>

definition push :: "adjacency \<Rightarrow> nat \<Rightarrow> nat \<Rightarrow> adjacency" where
  "push adj i v = adj[i := adj ! i @ [v]]"

text \<open>
  The body of the ring loop. \<open>%\<close> is the truncating remainder of JavaScript
  (\<open>smod\<close>); both dividends are computed on integers, as the source does.
\<close>

definition ring_body :: "nat \<Rightarrow> nat \<Rightarrow> adjacency \<Rightarrow> adjacency" where
  "ring_body N i adj =
     (let L = nat ((int i - 1 + int N) smod int N);
          R = nat ((int i + 1) smod int N)
      in if L = R then push adj i L
         else push (push adj i L) i R)"

text \<open>
  The body of the inner Erdos-Renyi loop: one uniform draw per pair \<open>i < j\<close>.
  \<open>Math.random\<close> is a parameter \<open>random\<close>, a step function on the generator state.
\<close>

definition er_body ::
  "('u \<Rightarrow> real \<times> 'u) \<Rightarrow> real \<Rightarrow> nat \<Rightarrow> nat \<Rightarrow> adjacency \<times> 'u \<Rightarrow> adjacency \<times> 'u" where
  "er_body random p i j = (\<lambda>(adj, u).
     let (x, u') = random u
     in if x < p then (push (push adj i j) j i, u') else (adj, u'))"

text \<open>
  \<open>buildAdjacency(type, N, p)\<close>: \<open>None\<close> is the \<open>null\<close> that stands for all-to-all
  coupling. The generator state is threaded through and returned.
\<close>

definition buildAdjacency ::
  "('u \<Rightarrow> real \<times> 'u) \<Rightarrow> Topology \<Rightarrow> nat \<Rightarrow> real \<Rightarrow> 'u \<Rightarrow> adjacency option \<times> 'u" where
  "buildAdjacency random type N p u =
     (case type of
        All \<Rightarrow> (None, u)
      | Ring \<Rightarrow> (Some (fold (ring_body N) [0..<N] (replicate N [])), u)
      | ErdosRenyi \<Rightarrow>
          (let (adj, u') =
                 fold (\<lambda>i. fold (er_body random p i) [Suc i..<N]) [0..<N] (replicate N [], u)
           in (Some adj, u')))"

section \<open>Order parameter\<close>

record Order =
  r :: real
  psi :: real

text \<open>
  \<open>computeOrder\<close> reads the phase array and returns a fresh object. For an empty array the
  source divides by zero and returns NaN for both fields; the real-number model
  returns \<open>0\<close> there, and every statement about the result assumes \<open>N \<ge> 1\<close>.
\<close>

definition computeOrder :: "real list \<Rightarrow> Order" where
  "computeOrder thetas =
     (let nInv = 1 / real (length thetas);
          (cx, sx) = fold (\<lambda>i (cx, sx). (cx + cos (thetas ! i), sx + sin (thetas ! i)))
                       [0..<length thetas] (0, 0);
          cx = cx * nInv;
          sx = sx * nInv
      in \<lparr> r = hypot cx sx, psi = atan2 sx cx \<rparr>)"

section \<open>Arrays, contexts and the field evaluator\<close>

text \<open>
  The integrators receive \<open>Float64Array\<close> objects by reference and write into them, so
  the arrays live in a store: an address names an array object, and two parameters
  alias exactly when they are the same address. Writing a typed array past its end
  does nothing, which is what \<open>xs[i := v]\<close> does. Reading past the end gives
  \<open>undefined\<close> (NaN in arithmetic), which the reals do not have: \<open>xs ! i\<close> is left
  unspecified there, and the theorems state the lengths under which no such read
  happens.
\<close>

type_synonym addr = nat
type_synonym heap = "addr \<Rightarrow> real list"

datatype error = TypeError

record CouplingContext =
  K :: real
  adj :: "adjacency option"
  scratch :: "addr option"

text \<open>
  The explicit-adjacency branch, lines 64-72 of \<open>kuramoto.ts\<close>:
  \<^verbatim>\<open>
  for (let i = 0; i < N; i++) {
      const connectivity = adj[i];
      let s = 0;
      for (let j = 0; j < connectivity.length; j++) {
          const neighbor = connectivity[j];
          s += Math.sin(theta[neighbor] - theta[i]);
          const coupling = connectivity.length ? (K / connectivity.length ) : 0;
      }
  }
  \<close>
  The body of the inner loop updates \<open>s\<close>; its constant \<open>coupling\<close> is local to the
  iteration.
\<close>

definition inner_body :: "real list \<Rightarrow> real \<Rightarrow> nat \<Rightarrow> nat list \<Rightarrow> nat \<Rightarrow> real \<Rightarrow> real" where
  "inner_body th k i connectivity j s =
     (let neighbor = connectivity ! j;
          s' = s + sin (th ! neighbor - th ! i);
          coupling = (if length connectivity \<noteq> 0 then k / real (length connectivity) else 0)
      in s')"

text \<open>
  The outer loop. The sum \<open>s\<close> is computed and dropped: no statement assigns \<open>out[i]\<close>,
  so the store is returned as it was. A missing row \<open>adj[i]\<close> is \<open>undefined\<close>, and
  reading its \<open>length\<close> throws.
\<close>

fun field_adj :: "adjacency \<Rightarrow> real \<Rightarrow> addr \<Rightarrow> nat list \<Rightarrow> heap \<Rightarrow> error option \<times> heap" where
  "field_adj a k theta [] h = (None, h)"
| "field_adj a k theta (i # rest) h =
     (if i < length a then
        (let connectivity = a ! i;
             s = fold (inner_body (h theta) k i connectivity) [0..<length connectivity] 0
         in field_adj a k theta rest h)
      else (Some TypeError, h))"

text \<open>The body of the all-to-all loop: \<^verbatim>\<open>out[i] = omega[i] + K * r * Math.sin(psi - theta[i])\<close>.\<close>

definition field_all_body :: "addr \<Rightarrow> addr \<Rightarrow> addr \<Rightarrow> real \<Rightarrow> Order \<Rightarrow> nat \<Rightarrow> heap \<Rightarrow> heap" where
  "field_all_body out theta omega k ord i h =
     h(out := (h out)[i := h omega ! i + k * r ord * sin (psi ord - h theta ! i)])"

definition field :: "addr \<Rightarrow> addr \<Rightarrow> addr \<Rightarrow> CouplingContext \<Rightarrow> heap \<Rightarrow> error option \<times> heap" where
  "field out theta omega ctx h =
     (let N = length (h theta) in
      case adj ctx of
        None \<Rightarrow>
          (let ord = computeOrder (h theta)
           in (None, fold (field_all_body out theta omega (K ctx) ord) [0..<N] h))
      | Some a \<Rightarrow> field_adj a (K ctx) theta [0..<N] h)"

section \<open>Integrators\<close>

record Scratch =
  k1 :: addr
  k2 :: addr
  k3 :: addr
  k4 :: addr
  tempTheta :: "addr option"

text \<open>
  \<^verbatim>\<open>const sig = noise > 0 ? Math.sqrt(dt) * noise : 0;\<close>
  For \<open>dt < 0\<close> the square root is NaN. \<open>sig\<close> is used only in \<open>sig ? sig * rng() : 0\<close>,
  where NaN is falsy exactly as \<open>0\<close> is, so that case is \<open>0\<close> in the model.
\<close>

definition noise_sig :: "real \<Rightarrow> real \<Rightarrow> real" where
  "noise_sig dt noise = (if 0 < noise then (if dt < 0 then 0 else sqrt dt * noise) else 0)"

text \<open>
  \<^verbatim>\<open>const dW = sig ? sig * rng() : 0;\<close>
  The deviate source \<open>rng\<close> is a step function on its own state; it is called only
  when \<open>sig\<close> is truthy.
\<close>

definition draw_dW :: "real \<Rightarrow> ('g \<Rightarrow> real \<times> 'g) \<Rightarrow> 'g \<Rightarrow> real \<times> 'g" where
  "draw_dW sig rng g = (if sig \<noteq> 0 then (let (z, g') = rng g in (sig * z, g')) else (0, g))"

text \<open>Sequencing of two effects on the store; an exception of the first skips the second.\<close>

definition and_then ::
  "(heap \<Rightarrow> error option \<times> heap) \<Rightarrow> (heap \<Rightarrow> error option \<times> heap) \<Rightarrow> heap \<Rightarrow> error option \<times> heap" where
  "and_then f g h = (case f h of (Some e, h') \<Rightarrow> (Some e, h') | (None, h') \<Rightarrow> g h')"

text \<open>
  The final loop of each integrator, by the increment it adds (\<open>incr h i\<close> reads the
  slope buffers at index \<open>i\<close>):
  \<^verbatim>\<open>theta[i] = wrapAngle(theta[i] + <incr> + dW);\<close>
\<close>

definition commit_body ::
  "addr \<Rightarrow> (heap \<Rightarrow> nat \<Rightarrow> real) \<Rightarrow> real \<Rightarrow> ('g \<Rightarrow> real \<times> 'g) \<Rightarrow> nat \<Rightarrow> heap \<times> 'g \<Rightarrow> heap \<times> 'g" where
  "commit_body theta incr sig rng i = (\<lambda>(h, g).
     let (dW, g') = draw_dW sig rng g
     in (h(theta := (h theta)[i := wrapAngle (h theta ! i + incr h i + dW)]), g'))"

text \<open>
  \<^verbatim>\<open>
  const { k1 } = tmp;
  field(k1, theta, omega, ctx);
  const sig = noise > 0 ? Math.sqrt(dt) * noise : 0;
  for (let i = 0; i < theta.length; i++) {
      const dW = sig ? sig * rng() : 0;
      theta[i] = wrapAngle(theta[i] + dt * k1[i] + dW);
  }
  \<close>
  The result is the exception thrown, if any, the store and the state of the deviate
  source.
\<close>

definition stepEuler ::
  "addr \<Rightarrow> addr \<Rightarrow> real \<Rightarrow> real \<Rightarrow> CouplingContext \<Rightarrow> ('g \<Rightarrow> real \<times> 'g) \<Rightarrow> Scratch
     \<Rightarrow> heap \<times> 'g \<Rightarrow> error option \<times> heap \<times> 'g" where
  "stepEuler theta omega dt noise ctx rng tmp = (\<lambda>(h, g).
     case field (k1 tmp) theta omega ctx h of
       (Some e, h1) \<Rightarrow> (Some e, h1, g)
     | (None, h1) \<Rightarrow>
         (let sig = noise_sig dt noise
          in (None, fold (commit_body theta (\<lambda>h i. dt * h (k1 tmp) ! i) sig rng)
                      [0..<length (h1 theta)] (h1, g))))"

text \<open>
  An intermediate state: \<^verbatim>\<open>tempTheta[i] = wrapAngle(theta[i] + c * k[i])\<close> for every
  \<open>i\<close>, with \<open>c\<close> the product \<open>0.5 * dt\<close> or \<open>dt\<close> and \<open>k\<close> the slope buffer.
\<close>

definition stage_body :: "addr \<Rightarrow> addr \<Rightarrow> addr \<Rightarrow> real \<Rightarrow> nat \<Rightarrow> heap \<Rightarrow> heap" where
  "stage_body tt theta k c i h = h(tt := (h tt)[i := wrapAngle (h theta ! i + c * h k ! i)])"

definition stage :: "addr \<Rightarrow> addr \<Rightarrow> addr \<Rightarrow> real \<Rightarrow> heap \<Rightarrow> error option \<times> heap" where
  "stage tt theta k c h = (None, fold (stage_body tt theta k c) [0..<length (h theta)] h)"

text \<open>
  \<open>tempTheta\<close> is an optional field of \<open>Scratch\<close>, which the integrators use through
  the cast \<open>tmp as Required<Scratch>\<close>. When it is absent the first use throws: the
  assignment \<open>tempTheta[i] = \<dots>\<close>, or, for an empty \<open>theta\<close>, \<open>theta.length\<close> inside
  \<open>field(k2, tempTheta, \<dots>)\<close>. In both cases \<open>field(k1, \<dots>)\<close> has run and nothing
  else has.
\<close>

definition stepRK2 ::
  "addr \<Rightarrow> addr \<Rightarrow> real \<Rightarrow> real \<Rightarrow> CouplingContext \<Rightarrow> ('g \<Rightarrow> real \<times> 'g) \<Rightarrow> Scratch
     \<Rightarrow> heap \<times> 'g \<Rightarrow> error option \<times> heap \<times> 'g" where
  "stepRK2 theta omega dt noise ctx rng tmp = (\<lambda>(h, g).
     case field (k1 tmp) theta omega ctx h of
       (Some e, h1) \<Rightarrow> (Some e, h1, g)
     | (None, h1) \<Rightarrow>
        (case tempTheta tmp of
           None \<Rightarrow> (Some TypeError, h1, g)
         | Some tt \<Rightarrow>
            (case and_then (stage tt theta (k1 tmp) (0.5 * dt))
                           (field (k2 tmp) tt omega ctx) h1 of
               (Some e, h2) \<Rightarrow> (Some e, h2, g)
             | (None, h2) \<Rightarrow>
                 (let sig = noise_sig dt noise
                  in (None, fold (commit_body theta (\<lambda>h i. dt * h (k2 tmp) ! i) sig rng)
                              [0..<length (h2 theta)] (h2, g))))))"

definition stepRK4 ::
  "addr \<Rightarrow> addr \<Rightarrow> real \<Rightarrow> real \<Rightarrow> CouplingContext \<Rightarrow> ('g \<Rightarrow> real \<times> 'g) \<Rightarrow> Scratch
     \<Rightarrow> heap \<times> 'g \<Rightarrow> error option \<times> heap \<times> 'g" where
  "stepRK4 theta omega dt noise ctx rng tmp = (\<lambda>(h, g).
     case field (k1 tmp) theta omega ctx h of
       (Some e, h1) \<Rightarrow> (Some e, h1, g)
     | (None, h1) \<Rightarrow>
        (case tempTheta tmp of
           None \<Rightarrow> (Some TypeError, h1, g)
         | Some tt \<Rightarrow>
            (case and_then (stage tt theta (k1 tmp) (0.5 * dt))
                 (and_then (field (k2 tmp) tt omega ctx)
                 (and_then (stage tt theta (k2 tmp) (0.5 * dt))
                 (and_then (field (k3 tmp) tt omega ctx)
                 (and_then (stage tt theta (k3 tmp) dt)
                           (field (k4 tmp) tt omega ctx))))) h1 of
               (Some e, h2) \<Rightarrow> (Some e, h2, g)
             | (None, h2) \<Rightarrow>
                 (let sig = noise_sig dt noise
                  in (None, fold (commit_body theta
                                    (\<lambda>h i. (dt / 6) * (h (k1 tmp) ! i + 2 * h (k2 tmp) ! i
                                                       + 2 * h (k3 tmp) ! i + h (k4 tmp) ! i))
                                    sig rng)
                              [0..<length (h2 theta)] (h2, g))))))"

section \<open>Manual seeding of phases and frequencies\<close>

text \<open>
  The page component parses a pasted list. A JavaScript string is a sequence of UTF-16
  code units. The white-space class of a regular expression, and \<open>trim\<close>, take the
  white space and line terminator code units of the language standard.
\<close>

type_synonym jsstring = "nat list"

definition is_space :: "nat \<Rightarrow> bool" where
  "is_space c = (c \<in> {9, 10, 11, 12, 13, 32, 160, 5760, 8232, 8233, 8239, 8287, 12288, 65279}
                 \<or> (8192 \<le> c \<and> c \<le> 8202))"

text \<open>A character matched by the class \<^verbatim>\<open>[\s,]\<close>.\<close>

definition is_sep :: "nat \<Rightarrow> bool" where
  "is_sep c = (is_space c \<or> c = 44)"

text \<open>
  \<^verbatim>\<open>text.split(/[\s,]+/)\<close>: the pieces between maximal runs of separators. A
  separator at the start or at the end of the text leaves an empty piece there, and
  the empty text is one empty piece. The second argument is the piece being read.
\<close>

function split_seps :: "jsstring \<Rightarrow> jsstring \<Rightarrow> jsstring list" where
  "split_seps [] cur = [cur]"
| "split_seps (c # cs) cur =
     (if is_sep c then cur # split_seps (dropWhile is_sep cs) []
      else split_seps cs (cur @ [c]))"
  by pat_completeness auto
termination
  by (relation "measure (\<lambda>(cs, cur). length cs)")
     (auto simp: length_dropWhile_le le_imp_less_Suc)

definition trim :: "jsstring \<Rightarrow> jsstring" where
  "trim t = rev (dropWhile is_space (rev (dropWhile is_space t)))"

text \<open>
  What \<open>Number(t)\<close> returns: a finite number, NaN or an infinity. The conversion itself
  is the language's and is a parameter of the model; \<open>Number.isFinite\<close> keeps the
  finite numbers.
\<close>

datatype jsnum = Finite real | NaN | Infinity | NegInfinity

fun isFinite :: "jsnum \<Rightarrow> bool" where
  "isFinite (Finite x) = True"
| "isFinite _ = False"

text \<open>The value a finite number stores into a \<open>Float64Array\<close>.\<close>

fun stored :: "jsnum \<Rightarrow> real" where
  "stored (Finite x) = x"
| "stored _ = 0"

text \<open>
  \<^verbatim>\<open>
  const tokens = text.split(/[\s,]+/).map(t => t.trim()).filter(t => t.length > 0)
                     .map(Number).filter(Number.isFinite);
  \<close>
\<close>

definition manual_tokens :: "(jsstring \<Rightarrow> jsnum) \<Rightarrow> jsstring \<Rightarrow> jsnum list" where
  "manual_tokens Number txt =
     filter isFinite (map Number (filter (\<lambda>t. 0 < length t) (map trim (split_seps txt []))))"

text \<open>
  \<open>applyManualTheta(text)\<close>, on the array \<open>thetaRef.current\<close>:
  \<^verbatim>\<open>
  if (tokens.length === 0) {
      for (let i = 0; i < n; i++) th[i] = 0;
  } else {
      const last = tokens[tokens.length - 1];
      for (let i = 0; i < n; i++) th[i] = i < tokens.length ? tokens[i] : last;
  }
  for (let i = 0; i < n; i++) th[i] = Math.atan2(Math.sin(th[i]), Math.cos(th[i]));
  \<close>
\<close>

definition fill_manual :: "jsnum list \<Rightarrow> real list \<Rightarrow> real list" where
  "fill_manual tokens th =
     (let n = length th
      in if length tokens = 0 then fold (\<lambda>i th. th[i := 0]) [0..<n] th
         else (let last = tokens ! (length tokens - 1)
               in fold (\<lambda>i th. th[i := (if i < length tokens then stored (tokens ! i)
                                          else stored last)]) [0..<n] th))"

definition applyManualTheta :: "(jsstring \<Rightarrow> jsnum) \<Rightarrow> jsstring \<Rightarrow> real list \<Rightarrow> real list" where
  "applyManualTheta Number txt th =
     (let tokens = manual_tokens Number txt;
          n = length th;
          th1 = fill_manual tokens th
      in fold (\<lambda>i th. th[i := atan2 (sin (th ! i)) (cos (th ! i))]) [0..<n] th1)"

text \<open>\<open>applyManualOmega(text)\<close> fills \<open>omegaRef.current\<close> the same way and does not wrap.\<close>

definition applyManualOmega :: "(jsstring \<Rightarrow> jsnum) \<Rightarrow> jsstring \<Rightarrow> real list \<Rightarrow> real list" where
  "applyManualOmega Number txt w = fill_manual (manual_tokens Number txt) w"

section \<open>The sample buffer of the simulation loop\<close>

text \<open>
  The hook \<open>useKuramoto\<close> keeps the clock \<open>tRef\<close>, the time of the last sample
  \<open>lastChart\<close> and the buffer \<open>rBuf\<close> in references; \<open>last\<close> and \<open>acc\<close> are local to
  the running effect. The simulation state proper (arrays, context, deviate source) is
  the field \<open>sim\<close>; the selected integrator acts on it as \<open>stepOnce\<close>, and
  \<open>order\<close> reads \<open>computeOrder(theta.current).r\<close> from it.
\<close>

record 'sim loop_state =
  lastT :: real
  acc :: real
  tRef :: real
  lastChart :: real
  rBuf :: "(real \<times> real) list"
  sim :: 'sim

text \<open>
  \<^verbatim>\<open>while (acc >= dt && steps < 5000) { stepOnce(); acc -= dt; steps++; tRef.current += dt; }\<close>
  An exception of \<open>stepOnce\<close> leaves the loop with the state reached so far.
\<close>

function stepping ::
  "('sim \<Rightarrow> error option \<times> 'sim) \<Rightarrow> real \<Rightarrow> nat \<Rightarrow> 'sim loop_state
     \<Rightarrow> error option \<times> nat \<times> 'sim loop_state" where
  "stepping stepOnce dt steps s =
     (if dt \<le> acc s \<and> steps < 5000 then
        (case stepOnce (sim s) of
           (Some e, sim') \<Rightarrow> (Some e, steps, s\<lparr>sim := sim'\<rparr>)
         | (None, sim') \<Rightarrow>
             stepping stepOnce dt (Suc steps)
               (s\<lparr>sim := sim', acc := acc s - dt, tRef := tRef s + dt\<rparr>))
      else (None, steps, s))"
  by pat_completeness auto
termination
  by (relation "measure (\<lambda>(stepOnce, dt, steps, s). 5000 - steps)") auto

text \<open>
  \<^verbatim>\<open>
  rBuf.current.push({ t: tRef.current, r });
  if (rBuf.current.length > 600) rBuf.current.shift();
  \<close>
\<close>

definition push_sample :: "real \<times> real \<Rightarrow> (real \<times> real) list \<Rightarrow> (real \<times> real) list" where
  "push_sample pt buf = (let buf' = buf @ [pt] in if 600 < length buf' then tl buf' else buf')"

text \<open>One animation frame of \<open>useKuramoto\<close> at wall-clock time \<open>now\<close>.\<close>

definition loop ::
  "('sim \<Rightarrow> error option \<times> 'sim) \<Rightarrow> ('sim \<Rightarrow> real) \<Rightarrow> real \<Rightarrow> real \<Rightarrow> real
     \<Rightarrow> 'sim loop_state \<Rightarrow> error option \<times> 'sim loop_state" where
  "loop stepOnce order dt speed now s =
     (let dtWall = min 0.5 (max 0 ((now - lastT s) / 1000));
          s1 = s\<lparr>lastT := now, acc := acc s + dtWall * speed\<rparr>
      in case stepping stepOnce dt 0 s1 of
           (Some e, steps, s2) \<Rightarrow> (Some e, s2)
         | (None, steps, s2) \<Rightarrow>
             if 0 < steps \<and> 0.05 < tRef s2 - lastChart s2 then
               (let s3 = s2\<lparr>lastChart := tRef s2\<rparr>;
                    rv = order (sim s3)
                in (None, s3\<lparr>rBuf := push_sample (tRef s3, rv) (rBuf s3)\<rparr>))
             else (None, s2))"

text \<open>\<open>resetChart\<close>: a buffer of one sample at time \<open>0\<close>, and both clocks at \<open>0\<close>.\<close>

definition resetChart :: "('sim \<Rightarrow> real) \<Rightarrow> 'sim loop_state \<Rightarrow> 'sim loop_state" where
  "resetChart order s = s\<lparr>rBuf := [(0, order (sim s))], tRef := 0, lastChart := 0\<rparr>"

text \<open>
  The states the hook can reach. It starts with one sample at time \<open>0\<close>. A frame runs
  with whatever parameters the component has at that moment; restarting the effect
  resets \<open>last\<close> and \<open>acc\<close>; seeding and rebuilding change the simulation state only.
\<close>

inductive hook_reachable :: "'sim loop_state \<Rightarrow> bool" where
  initial: "hook_reachable \<lparr>lastT = t0, acc = 0, tRef = 0, lastChart = 0, rBuf = [(0, r0)], sim = x\<rparr>"
| frame: "hook_reachable s \<Longrightarrow> loop stepOnce order dt speed now s = (e, s') \<Longrightarrow> hook_reachable s'"
| restart: "hook_reachable s \<Longrightarrow> hook_reachable (s\<lparr>lastT := now, acc := 0\<rparr>)"
| reset: "hook_reachable s \<Longrightarrow> hook_reachable (resetChart order s)"
| seed: "hook_reachable s \<Longrightarrow> hook_reachable (s\<lparr>sim := x\<rparr>)"

text \<open>
  The page component \<open>KuramotoLive\<close> records a sample at the end of every
  \<open>stepSimulation(h)\<close>, with the order magnitude \<open>r\<close> computed at its start:
  \<^verbatim>\<open>
  tRef.current += h;
  const pt = { t: tRef.current, r };
  const buf = rBufferRef.current;
  buf.push(pt);
  if (buf.length > 600) buf.shift();
  \<close>
  The state kept here is the clock and the buffer.
\<close>

definition record_sample :: "real \<Rightarrow> real \<Rightarrow> real \<times> (real \<times> real) list \<Rightarrow> real \<times> (real \<times> real) list" where
  "record_sample h rv = (\<lambda>(t, buf). let t' = t + h in (t', push_sample (t', rv) buf))"

text \<open>
  The buffer starts empty. Every reset of the page (a change of \<open>N\<close>, Reset, reseeding)
  empties it and pushes one sample at time \<open>0\<close>.
\<close>

inductive page_reachable :: "real \<times> (real \<times> real) list \<Rightarrow> bool" where
  page_initial: "page_reachable (0, [])"
| page_step: "page_reachable s \<Longrightarrow> page_reachable (record_sample h rv s)"
| page_reset: "page_reachable s \<Longrightarrow> page_reachable (0, [(0, rv)])"

section \<open>Definitions used in the statements and proofs\<close>

text \<open>
  The naive pairwise form of the all-to-all field, as the specification words it:
  \<open>\<omega>\<^sub>i + (K/N) \<Sum>\<^sub>j sin(\<theta>\<^sub>j - \<theta>\<^sub>i)\<close>.
\<close>

definition naive_field :: "real \<Rightarrow> real list \<Rightarrow> real list \<Rightarrow> nat \<Rightarrow> real" where
  "naive_field k th om i =
     om ! i + (k / real (length th)) * (\<Sum>j<length th. sin (th ! j - th ! i))"

text \<open>
  The explicit-adjacency field as the specification words it, which is also what the
  page component's \<open>instantaneousDrift\<close> computes:
  \<^verbatim>\<open>
  const coupling = nbrs.length > 0 ? (K / nbrs.length) * s : 0;
  out[i] = (w?.[i] ?? 0) + coupling;
  \<close>
\<close>

definition graph_field :: "real \<Rightarrow> adjacency \<Rightarrow> real list \<Rightarrow> real list \<Rightarrow> nat \<Rightarrow> real" where
  "graph_field k a th om i =
     om ! i + (if 0 < length (a ! i)
               then (k / real (length (a ! i))) * (\<Sum>j\<leftarrow>a ! i. sin (th ! j - th ! i))
               else 0)"

definition mean_cos :: "real list \<Rightarrow> real" where
  "mean_cos xs = sum_list (map cos xs) * (1 / real (length xs))"

definition mean_sin :: "real list \<Rightarrow> real" where
  "mean_sin xs = sum_list (map sin xs) * (1 / real (length xs))"

text \<open>Two stores that hold the same arrays everywhere except at one address.\<close>

definition agree_off :: "addr \<Rightarrow> heap \<Rightarrow> heap \<Rightarrow> bool" where
  "agree_off a h1 h2 = (\<forall>b. b \<noteq> a \<longrightarrow> h1 b = h2 b)"

text \<open>The neighbour list of oscillator \<open>i\<close> on the ring, as the specification words it.\<close>

definition ring_row :: "nat \<Rightarrow> nat \<Rightarrow> nat list" where
  "ring_row N i = (if N = 2 then [1 - i] else [nat ((int i - 1) mod int N), (i + 1) mod N])"

text \<open>
  The value seeded at position \<open>i\<close>, as the specification words it: the \<open>i\<close>-th valid
  value, the last valid value past their count, and \<open>0\<close> when there is none.
\<close>

definition seed_value :: "jsnum list \<Rightarrow> nat \<Rightarrow> real" where
  "seed_value tokens i =
     (if tokens = [] then 0
      else if i < length tokens then stored (tokens ! i)
      else stored (last tokens))"

section \<open>Properties of angles\<close>

lemma atan2_range: "- pi < atan2 y x \<and> atan2 y x \<le> pi"
proof -
  have lo: "- (pi / 2) < arctan (y / x)" by (rule arctan_lbound)
  have hi: "arctan (y / x) < pi / 2" by (rule arctan_ubound)
  have p: "0 < pi" by simp
  consider (pos) "0 < x" | (neg_up) "x < 0" "0 \<le> y" | (neg_down) "x < 0" "y < 0" | (zero) "x = 0"
    by linarith
  then show ?thesis
  proof cases
    case pos
    have "atan2 y x = arctan (y / x)" using pos by (simp add: atan2_def)
    with lo hi p show ?thesis by linarith
  next
    case neg_up
    then have "y / x \<le> 0" by (simp add: divide_nonneg_neg)
    then have "arctan (y / x) \<le> 0" using arctan_monotone'[of "y / x" 0] by simp
    moreover have "atan2 y x = arctan (y / x) + pi" using neg_up by (simp add: atan2_def)
    ultimately show ?thesis using lo p by linarith
  next
    case neg_down
    then have "0 < y / x" by (simp add: divide_neg_neg)
    then have "0 < arctan (y / x)" using arctan_monotone[of 0 "y / x"] by simp
    moreover have "atan2 y x = arctan (y / x) - pi" using neg_down by (simp add: atan2_def)
    ultimately show ?thesis using hi p by linarith
  next
    case zero
    have "atan2 y x = pi / 2 \<or> atan2 y x = - (pi / 2) \<or> atan2 y x = 0"
      using zero by (simp add: atan2_def)
    with p show ?thesis by linarith
  qed
qed

text \<open>An angle already in \<open>(-\<pi>, \<pi>]\<close> is a fixed point of \<open>wrapAngle\<close>.\<close>

lemma wrapAngle_fixed:
  assumes "- pi < x" "x \<le> pi"
  shows "wrapAngle x = x"
proof -
  consider (mid) "- (pi / 2) < x" "x < pi / 2" | (up) "pi / 2 < x" | (down) "x < - (pi / 2)"
    | (top) "x = pi / 2" | (bot) "x = - (pi / 2)"
    by linarith
  then show ?thesis
  proof cases
    case mid
    then have c: "0 < cos x" by (simp add: cos_gt_zero_pi)
    have "arctan (tan x) = x" using mid by (rule arctan_tan)
    with c show ?thesis by (simp add: wrapAngle_def atan2_def tan_def)
  next
    case up
    have c: "cos x < 0" using up assms cos_monotone_0_pi[of "pi/2" x] by simp
    have s: "0 \<le> sin x" using up assms by (simp add: sin_ge_zero)
    have "tan (x - pi) = tan x" using tan_periodic_pi[of "x - pi"] by simp
    moreover have "arctan (tan (x - pi)) = x - pi" using up assms by (intro arctan_tan) linarith+
    ultimately have "arctan (sin x / cos x) = x - pi" by (simp add: tan_def)
    with c s show ?thesis by (simp add: wrapAngle_def atan2_def)
  next
    case down
    have c: "cos x < 0" using down assms cos_monotone_0_pi[of "pi/2" "- x"] by simp
    have "sin (- x) > 0" using down assms by (intro sin_gt_zero) linarith+
    then have s: "sin x < 0" by simp
    have "tan (x + pi) = tan x" by (rule tan_periodic_pi)
    moreover have "arctan (tan (x + pi)) = x + pi" using down assms by (intro arctan_tan) linarith+
    ultimately have "arctan (sin x / cos x) = x + pi" by (simp add: tan_def)
    with c s show ?thesis by (simp add: wrapAngle_def atan2_def)
  next
    case top
    have "sin x = 1" "cos x = 0" unfolding top by simp_all
    then have "wrapAngle x = pi / 2" by (simp add: wrapAngle_def atan2_def)
    with top show ?thesis by simp
  next
    case bot
    have "sin x = - 1" "cos x = 0" unfolding bot by simp_all
    then have "wrapAngle x = - (pi / 2)" by (simp add: wrapAngle_def atan2_def)
    with bot show ?thesis by simp
  qed
qed

lemma wrapAngle_range: "- pi < wrapAngle x \<and> wrapAngle x \<le> pi"
  unfolding wrapAngle_def by (rule atan2_range)

text \<open>
  Claim C5. For every real \<open>theta\<close>, \<open>wrapAngle theta\<close> is \<open>atan2 (sin theta) (cos theta)\<close>,
  it lies in the interval \<open>(-\<pi>, \<pi>]\<close>, and wrapping twice is the same as wrapping once.
\<close>

theorem wrapAngle_range_idempotent:
  "wrapAngle theta = atan2 (sin theta) (cos theta)
   \<and> - pi < wrapAngle theta \<and> wrapAngle theta \<le> pi
   \<and> wrapAngle (wrapAngle theta) = wrapAngle theta"
proof -
  have "- pi < wrapAngle theta \<and> wrapAngle theta \<le> pi" by (rule wrapAngle_range)
  then have "wrapAngle (wrapAngle theta) = wrapAngle theta" by (simp add: wrapAngle_fixed)
  then show ?thesis using wrapAngle_range[of theta] by (simp add: wrapAngle_def)
qed

section \<open>Properties of the order parameter\<close>

lemma fold_index: "fold (\<lambda>i. f (xs ! i)) [0..<length xs] s = fold f xs s"
proof (induction xs arbitrary: s rule: rev_induct)
  case Nil
  show ?case by simp
next
  case (snoc x xs)
  have "fold (\<lambda>i. f ((xs @ [x]) ! i)) [0..<length xs] s = fold (\<lambda>i. f (xs ! i)) [0..<length xs] s"
    by (rule fold_cong) (simp_all add: nth_append)
  with snoc show ?case by simp
qed

lemma fold_cos_sin:
  "fold (\<lambda>x (cx, sx). (cx + cos x, sx + sin x)) xs (a, b)
     = (a + sum_list (map cos xs), b + sum_list (map sin xs))"
  by (induction xs arbitrary: a b) (simp_all add: algebra_simps)

lemma computeOrder_closed:
  "computeOrder xs = \<lparr> r = hypot (mean_cos xs) (mean_sin xs), psi = atan2 (mean_sin xs) (mean_cos xs) \<rparr>"
proof -
  have "fold (\<lambda>i (cx, sx). (cx + cos (xs ! i), sx + sin (xs ! i))) [0..<length xs] (0, 0)
        = fold (\<lambda>x (cx, sx). (cx + cos x, sx + sin x)) xs (0, 0)"
    by (rule fold_index[of "\<lambda>x (cx, sx). (cx + cos x, sx + sin x)"])
  then show ?thesis
    by (simp add: computeOrder_def fold_cos_sin mean_cos_def mean_sin_def Let_def)
qed

lemma cis_sum: "Complex (sum_list (map cos xs)) (sum_list (map sin xs)) = sum_list (map cis xs)"
  by (induction xs) (simp_all add: complex_eq_iff)

lemma cmod_cis_sum: "cmod (sum_list (map cis xs)) \<le> real (length xs)"
proof (induction xs)
  case Nil
  show ?case by simp
next
  case (Cons x xs)
  have "cmod (cis x + sum_list (map cis xs)) \<le> cmod (cis x) + cmod (sum_list (map cis xs))"
    by (rule norm_triangle_ineq)
  with Cons show ?case by simp
qed

lemma hypot_cmod: "hypot x y = cmod (Complex x y)"
  by (simp add: hypot_def cmod_def)

lemma r_bounds:
  assumes "xs \<noteq> []"
  shows "0 \<le> r (computeOrder xs) \<and> r (computeOrder xs) \<le> 1"
proof -
  let ?n = "real (length xs)"
  have n: "0 < ?n" using assms by simp
  have "Complex (mean_cos xs) (mean_sin xs) = sum_list (map cis xs) / of_real ?n"
    using n by (simp add: mean_cos_def mean_sin_def cis_sum[symmetric] complex_eq_iff)
  then have "hypot (mean_cos xs) (mean_sin xs) = cmod (sum_list (map cis xs)) / ?n"
    using n by (simp add: hypot_cmod norm_divide)
  moreover have "cmod (sum_list (map cis xs)) / ?n \<le> 1"
    using n cmod_cis_sum[of xs] by simp
  moreover have "0 \<le> cmod (sum_list (map cis xs)) / ?n" by simp
  ultimately show ?thesis by (simp add: computeOrder_closed)
qed

lemma r_identical:
  assumes "0 < n"
  shows "r (computeOrder (replicate n c)) = 1"
proof -
  have s: "sum_list (map f (replicate n c)) = real n * f c" for f :: "real \<Rightarrow> real"
    by (induction n) (simp_all add: algebra_simps)
  have "mean_cos (replicate n c) = cos c" "mean_sin (replicate n c) = sin c"
    using assms unfolding mean_cos_def mean_sin_def s by simp_all
  then show ?thesis by (simp add: computeOrder_closed hypot_def)
qed

lemma hypot_polar:
  "hypot x y * cos (atan2 y x) = x \<and> hypot x y * sin (atan2 y x) = y"
proof -
  consider (pos) "0 < x" | (neg) "x < 0" | (zero) "x = 0" by linarith
  then show ?thesis
  proof cases
    case pos
    have h: "hypot x y = x * sqrt (1 + (y / x)\<^sup>2)"
    proof -
      have "x\<^sup>2 + y\<^sup>2 = x\<^sup>2 * (1 + (y / x)\<^sup>2)" using pos by (simp add: field_simps)
      then show ?thesis using pos by (simp add: hypot_def real_sqrt_mult)
    qed
    have q: "0 < sqrt (1 + (y / x)\<^sup>2)" by (simp add: add_pos_nonneg)
    have a: "atan2 y x = arctan (y / x)" using pos by (simp add: atan2_def)
    show ?thesis using pos q by (simp add: h a cos_arctan sin_arctan)
  next
    case neg
    have h: "hypot x y = - x * sqrt (1 + (y / x)\<^sup>2)"
    proof -
      have "x\<^sup>2 + y\<^sup>2 = (- x)\<^sup>2 * (1 + (y / x)\<^sup>2)" using neg by (simp add: field_simps)
      then have "sqrt (x\<^sup>2 + y\<^sup>2) = sqrt ((- x)\<^sup>2) * sqrt (1 + (y / x)\<^sup>2)"
        by (simp only: real_sqrt_mult)
      then show ?thesis using neg by (simp add: hypot_def)
    qed
    have q: "0 < sqrt (1 + (y / x)\<^sup>2)" by (simp add: add_pos_nonneg)
    have "cos (atan2 y x) = - cos (arctan (y / x)) \<and> sin (atan2 y x) = - sin (arctan (y / x))"
      using neg by (simp add: atan2_def)
    then show ?thesis using neg q by (simp add: h cos_arctan sin_arctan)
  next
    case zero
    then show ?thesis by (simp add: atan2_def hypot_def)
  qed
qed

lemma order_identity:
  assumes "xs \<noteq> []"
  shows "r (computeOrder xs) * sin (psi (computeOrder xs) - t)
         = (1 / real (length xs)) * (\<Sum>j<length xs. sin (xs ! j - t))"
proof -
  let ?n = "real (length xs)"
  have n: "0 < ?n" using assms by simp
  let ?C = "mean_cos xs" and ?S = "mean_sin xs"
  have "r (computeOrder xs) * sin (psi (computeOrder xs) - t)
        = (hypot ?C ?S * sin (atan2 ?S ?C)) * cos t - (hypot ?C ?S * cos (atan2 ?S ?C)) * sin t"
    by (simp add: computeOrder_closed sin_diff algebra_simps)
  also have "\<dots> = ?S * cos t - ?C * sin t"
    using hypot_polar[of ?C ?S] by simp
  also have "\<dots> = (1 / ?n) * (sum_list (map sin xs) * cos t - sum_list (map cos xs) * sin t)"
    by (simp add: mean_cos_def mean_sin_def algebra_simps)
  also have "sum_list (map sin xs) * cos t - sum_list (map cos xs) * sin t
             = (\<Sum>j<length xs. sin (xs ! j - t))"
  proof -
    have "sum_list (map f xs) = (\<Sum>j<length xs. f (xs ! j))" for f :: "real \<Rightarrow> real"
      by (simp add: sum_list_sum_nth atLeast0LessThan)
    then show ?thesis
      by (simp add: sin_diff sum_subtractf sum_distrib_right)
  qed
  finally show ?thesis .
qed

lemma constant_list: "(\<forall>i<length xs. xs ! i = c) \<Longrightarrow> xs = replicate (length xs) c"
  by (auto intro!: nth_equalityI)

text \<open>
  Claim C6. For a phase vector of length \<open>N \<ge> 1\<close> the magnitude returned by
  \<open>computeOrder\<close> lies in \<open>[0, 1]\<close>, and it is \<open>1\<close> when all phases are equal.
  \<open>computeOrder\<close> takes the contents of the array and returns a value: it has no
  access to the store.
\<close>

theorem computeOrder_magnitude:
  assumes "1 \<le> length thetas"
  shows "0 \<le> r (computeOrder thetas) \<and> r (computeOrder thetas) \<le> 1
       \<and> ((\<forall>i<length thetas. thetas ! i = c) \<longrightarrow> r (computeOrder thetas) = 1)"
proof -
  have ne: "thetas \<noteq> []" using assms by auto
  have "r (computeOrder thetas) = 1" if "\<forall>i<length thetas. thetas ! i = c"
  proof -
    have "thetas = replicate (length thetas) c" using that by (rule constant_list)
    moreover have "r (computeOrder (replicate (length thetas) c)) = 1"
      using ne by (intro r_identical) simp
    ultimately show ?thesis by simp
  qed
  then show ?thesis using r_bounds[OF ne] by blast
qed

theorem computeOrder_magnitude_witness:
  "1 \<le> length [0, 0 :: real]
   \<and> 0 \<le> r (computeOrder [0, 0]) \<and> r (computeOrder [0, 0]) \<le> 1 \<and> r (computeOrder [0, 0]) = 1"
proof -
  have a: "1 \<le> length [0, 0 :: real]" by simp
  have b: "\<forall>i<length [0, 0 :: real]. [0, 0] ! i = (0 :: real)" by (simp add: nth_Cons')
  show ?thesis using a b computeOrder_magnitude[OF a, of 0] by blast
qed

section \<open>Properties of the field evaluator\<close>

text \<open>
  A loop that assigns \<open>a[i] = v i\<close> for every \<open>i < n\<close>, where \<open>v\<close> may read \<open>a[i]\<close>
  itself and any other array.
\<close>

lemma write_loop:
  fixes v :: "heap \<Rightarrow> nat \<Rightarrow> real"
  assumes indep: "\<And>h1 h2 i. agree_off a h1 h2 \<Longrightarrow> h1 a ! i = h2 a ! i \<Longrightarrow> v h1 i = v h2 i"
  shows "fold (\<lambda>i h. h(a := (h a)[i := v h i])) [0..<n] h
         = h(a := map (\<lambda>i. if i < n then v h i else h a ! i) [0..<length (h a)])"
proof (induction n)
  case 0
  have "map (\<lambda>i. h a ! i) [0..<length (h a)] = h a" by (rule map_nth)
  then show ?case by simp
next
  case (Suc n)
  define f where "f = (\<lambda>i (h::heap). h(a := (h a)[i := v h i]))"
  let ?L = "map (\<lambda>i. if i < n then v h i else h a ! i) [0..<length (h a)]"
  let ?hn = "h(a := ?L)"
  have ih: "fold f [0..<n] h = ?hn" using Suc by (simp only: f_def)
  have "fold f [0..<Suc n] h = f n (fold f [0..<n] h)" by simp
  also have "\<dots> = f n ?hn" by (simp only: ih)
  also have "\<dots> = h(a := ?L[n := v ?hn n])" by (simp add: f_def)
  finally have step: "fold f [0..<Suc n] h = h(a := ?L[n := v ?hn n])" .
  have "?L[n := v ?hn n] = map (\<lambda>i. if i < Suc n then v h i else h a ! i) [0..<length (h a)]"
  proof (cases "n < length (h a)")
    case True
    have "agree_off a ?hn h" by (simp add: agree_off_def)
    moreover have "?hn a ! n = h a ! n" using True by simp
    ultimately have "v ?hn n = v h n" by (rule indep)
    then show ?thesis using True
      by (auto intro!: nth_equalityI simp: nth_list_update less_Suc_eq)
  next
    case False
    then show ?thesis by (auto intro!: nth_equalityI)
  qed
  with step show ?case by (simp only: f_def)
qed

lemma field_all_loop:
  assumes "out \<noteq> theta" "out \<noteq> omega"
  shows "fold (field_all_body out theta omega k ord) [0..<n] h
         = h(out := map (\<lambda>i. if i < n then h omega ! i + k * r ord * sin (psi ord - h theta ! i)
                              else h out ! i) [0..<length (h out)])"
proof -
  have "field_all_body out theta omega k ord
        = (\<lambda>i h. h(out := (h out)[i := h omega ! i + k * r ord * sin (psi ord - h theta ! i)]))"
    by (simp add: field_all_body_def fun_eq_iff)
  moreover have "fold (\<lambda>i h. h(out := (h out)[i := h omega ! i + k * r ord * sin (psi ord - h theta ! i)])) [0..<n] h
     = h(out := map (\<lambda>i. if i < n then h omega ! i + k * r ord * sin (psi ord - h theta ! i)
                              else h out ! i) [0..<length (h out)])"
    using assms by (intro write_loop) (simp add: agree_off_def)
  ultimately show ?thesis by simp
qed

lemma field_all_result:
  assumes "adj ctx = None" "out \<noteq> theta" "out \<noteq> omega"
  shows "field out theta omega ctx h
         = (None, h(out := map (\<lambda>i. if i < length (h theta)
                                      then h omega ! i + K ctx * r (computeOrder (h theta))
                                             * sin (psi (computeOrder (h theta)) - h theta ! i)
                                      else h out ! i) [0..<length (h out)]))"
  using assms by (simp add: field_def field_all_loop Let_def)

lemma field_adj_unchanged:
  "field_adj a k theta is h = (if \<forall>i\<in>set is. i < length a then None else Some TypeError, h)"
  by (induction "is") (simp_all add: Let_def)

lemma field_graph_result:
  assumes "adj ctx = Some a"
  shows "field out theta omega ctx h = (if length (h theta) \<le> length a then None else Some TypeError, h)"
proof -
  have "(\<forall>i\<in>set [0..<length (h theta)]. i < length a) = (length (h theta) \<le> length a)"
    by (auto simp: not_le) 
  then show ?thesis using assms by (simp add: field_def field_adj_unchanged)
qed

text \<open>
  Claim C2. For an all-to-all context, a phase vector of length \<open>N \<ge> 1\<close> and a frequency
  vector of the same length, \<open>field\<close> returns normally and writes
  \<open>out[i] = \<omega>[i] + (K/N) \<Sum>\<^sub>j sin(\<theta>\<^sub>j - \<theta>\<^sub>i)\<close> for every \<open>i < N\<close>: the term
  \<open>K r sin(\<psi> - \<theta>\<^sub>i)\<close> computed from the order parameter equals the pairwise sum
  scaled by \<open>K/N\<close>. The output buffer is an array of length \<open>N\<close> other than \<open>theta\<close>
  and \<open>omega\<close>.
\<close>

theorem field_all_to_all_is_naive_sum:
  assumes "adj ctx = None" and "h theta \<noteq> []"
    and "length (h omega) = length (h theta)" and "length (h out) = length (h theta)"
    and "out \<noteq> theta" and "out \<noteq> omega" and "i < length (h theta)"
  shows "fst (field out theta omega ctx h) = None
     \<and> snd (field out theta omega ctx h) out ! i = naive_field (K ctx) (h theta) (h omega) i
     \<and> K ctx * r (computeOrder (h theta)) * sin (psi (computeOrder (h theta)) - h theta ! i)
         = (K ctx / real (length (h theta))) * (\<Sum>j<length (h theta). sin (h theta ! j - h theta ! i))"
proof -
  have idn: "K ctx * r (computeOrder (h theta)) * sin (psi (computeOrder (h theta)) - h theta ! i)
         = (K ctx / real (length (h theta))) * (\<Sum>j<length (h theta). sin (h theta ! j - h theta ! i))"
    using order_identity[OF assms(2), of "h theta ! i"] by (simp add: algebra_simps)
  have "snd (field out theta omega ctx h) out ! i
        = h omega ! i + K ctx * r (computeOrder (h theta)) * sin (psi (computeOrder (h theta)) - h theta ! i)"
    using assms by (simp add: field_all_result)
  with idn show ?thesis using assms by (simp add: field_all_result naive_field_def)
qed

theorem field_all_to_all_is_naive_sum_witness:
  "adj \<lparr>K = 2, adj = None, scratch = None\<rparr> = None
   \<and> ((\<lambda>a. [0, 0]) :: heap) 1 \<noteq> [] \<and> (0 :: addr) \<noteq> 1 \<and> (0 :: addr) \<noteq> 2
   \<and> fst (field 0 1 2 \<lparr>K = 2, adj = None, scratch = None\<rparr> (\<lambda>a. [0, 0])) = None
   \<and> snd (field 0 1 2 \<lparr>K = 2, adj = None, scratch = None\<rparr> (\<lambda>a. [0, 0])) 0 ! 1
       = naive_field 2 [0, 0] [0, 0] 1"
  using field_all_to_all_is_naive_sum
          [of "\<lparr>K = 2, adj = None, scratch = None\<rparr>" "\<lambda>a. [0, 0]" 1 2 0 1]
  by simp

text \<open>
  Claim C1, at a concrete input. The context is the ring on two oscillators with
  \<open>K = 1\<close>; the phases are \<open>[0, 0]\<close>, the frequencies \<open>[1, 1]\<close> and the output buffer
  holds \<open>[0, 0]\<close>. The claim asks for \<open>out[0] = \<omega>[0] + (K/1) sin(\<theta>\<^sub>1 - \<theta>\<^sub>0) = 1\<close>;
  \<open>field\<close> returns with the store as it was, so \<open>out[0]\<close> is still \<open>0\<close>.
\<close>

theorem field_graph_leaves_out_unwritten:
  "field 0 1 2 \<lparr>K = 1, adj = Some [[1], [0]], scratch = None\<rparr> ((\<lambda>a. [0, 0])(2 := [1, 1]))
     = (None, (\<lambda>a. [0, 0])(2 := [1, 1]))
   \<and> ((\<lambda>a. [0, 0])(2 := [1, 1 :: real])) (0 :: addr) ! 0 = 0
   \<and> graph_field 1 [[1], [0]] [0, 0] [1, 1] 0 = 1"
  by (simp add: field_graph_result graph_field_def)

section \<open>Properties of the integrators\<close>

lemma fold_frame:
  assumes "\<And>i s. P (f i s) = P s"
  shows "P (fold f xs s) = P s"
  using assms by (induction xs arbitrary: s) simp_all

lemma field_frame:
  assumes "a \<noteq> out"
  shows "snd (field out theta omega ctx h) a = h a"
proof (cases "adj ctx")
  case None
  have "fold (field_all_body out theta omega (K ctx) ord) xs h a = h a" for ord xs
    by (rule fold_frame[where P = "\<lambda>h. h a"]) (simp add: field_all_body_def assms)
  with None show ?thesis by (simp add: field_def Let_def)
next
  case (Some g)
  then show ?thesis by (simp add: field_graph_result)
qed

lemma stage_frame:
  assumes "a \<noteq> tt"
  shows "snd (stage tt theta k c h) a = h a"
proof -
  have "fold (stage_body tt theta k c) xs h a = h a" for xs
    by (rule fold_frame[where P = "\<lambda>h. h a"]) (simp add: stage_body_def assms)
  then show ?thesis by (simp add: stage_def)
qed

lemma and_then_frame:
  assumes "\<And>h. snd (f h) a = h a" and "\<And>h. snd (g h) a = h a"
  shows "snd (and_then f g h) a = h a"
proof (cases "f h")
  case (Pair e h')
  have h': "h' a = h a" using assms(1)[of h] Pair by simp
  show ?thesis
  proof (cases e)
    case None
    with Pair h' assms(2)[of h'] show ?thesis by (simp add: and_then_def)
  next
    case (Some x)
    with Pair h' show ?thesis by (simp add: and_then_def)
  qed
qed

lemma commit_frame:
  assumes "a \<noteq> theta"
  shows "fst (fold (commit_body theta incr sig rng) xs (h, g)) a = h a"
proof -
  have "fst (fold (commit_body theta incr sig rng) xs s) a = fst s a" for s
    by (rule fold_frame[where P = "\<lambda>s. fst s a"])
       (simp add: commit_body_def assms split: prod.splits)
  from this[of "(h, g)"] show ?thesis by simp
qed

lemma stepEuler_frame:
  assumes "a \<noteq> theta" "a \<noteq> k1 tmp"
  shows "fst (snd (stepEuler theta omega dt noise ctx rng tmp (h, g))) a = h a"
proof (cases "field (k1 tmp) theta omega ctx h")
  case (Pair e h1)
  have h1: "h1 a = h a" using field_frame[OF assms(2), of theta omega ctx h] Pair by simp
  show ?thesis
  proof (cases e)
    case None
    with Pair h1 show ?thesis by (simp add: stepEuler_def commit_frame[OF assms(1)])
  next
    case (Some x)
    with Pair h1 show ?thesis by (simp add: stepEuler_def)
  qed
qed

lemma stepRK2_frame:
  assumes "a \<noteq> theta" "a \<noteq> k1 tmp" "a \<noteq> k2 tmp" "tempTheta tmp \<noteq> Some a"
  shows "fst (snd (stepRK2 theta omega dt noise ctx rng tmp (h, g))) a = h a"
proof (cases "field (k1 tmp) theta omega ctx h")
  case (Pair e h1)
  have h1: "h1 a = h a" using field_frame[OF assms(2), of theta omega ctx h] Pair by simp
  show ?thesis
  proof (cases e)
    case (Some x)
    with Pair h1 show ?thesis by (simp add: stepRK2_def)
  next
    case None
    show ?thesis
    proof (cases "tempTheta tmp")
      case nt: None
      with None Pair h1 show ?thesis by (simp add: stepRK2_def)
    next
      case (Some tt)
      then have tt: "a \<noteq> tt" using assms(4) by simp
      let ?m = "and_then (stage tt theta (k1 tmp) (0.5 * dt)) (field (k2 tmp) tt omega ctx)"
      have m: "snd (?m h') a = h' a" for h'
        by (intro and_then_frame stage_frame field_frame tt assms)
      obtain e2 h2 where r: "?m h1 = (e2, h2)" by (cases "?m h1")
      have h2: "h2 a = h a" using m[of h1] r h1 by simp
      show ?thesis using Pair None Some r h2
        by (cases e2) (simp_all add: stepRK2_def commit_frame[OF assms(1)])
    qed
  qed
qed

lemma stepRK4_frame:
  assumes "a \<noteq> theta" "a \<noteq> k1 tmp" "a \<noteq> k2 tmp" "a \<noteq> k3 tmp" "a \<noteq> k4 tmp"
    "tempTheta tmp \<noteq> Some a"
  shows "fst (snd (stepRK4 theta omega dt noise ctx rng tmp (h, g))) a = h a"
proof (cases "field (k1 tmp) theta omega ctx h")
  case (Pair e h1)
  have h1: "h1 a = h a" using field_frame[OF assms(2), of theta omega ctx h] Pair by simp
  show ?thesis
  proof (cases e)
    case (Some x)
    with Pair h1 show ?thesis by (simp add: stepRK4_def)
  next
    case None
    show ?thesis
    proof (cases "tempTheta tmp")
      case nt: None
      with None Pair h1 show ?thesis by (simp add: stepRK4_def)
    next
      case (Some tt)
      then have tt: "a \<noteq> tt" using assms(6) by simp
      let ?m = "and_then (stage tt theta (k1 tmp) (0.5 * dt))
                 (and_then (field (k2 tmp) tt omega ctx)
                 (and_then (stage tt theta (k2 tmp) (0.5 * dt))
                 (and_then (field (k3 tmp) tt omega ctx)
                 (and_then (stage tt theta (k3 tmp) dt)
                           (field (k4 tmp) tt omega ctx)))))"
      have m: "snd (?m h') a = h' a" for h'
        by (intro and_then_frame stage_frame field_frame tt assms)
      obtain e2 h2 where r: "?m h1 = (e2, h2)" by (cases "?m h1")
      have h2: "h2 a = h a" using m[of h1] r h1 by simp
      show ?thesis using Pair None Some r h2
        by (cases e2) (simp_all add: stepRK4_def commit_frame[OF assms(1)])
    qed
  qed
qed

text \<open>
  Claim C10. Each integrator leaves the frequency array as it was, whether it
  returns or throws, provided \<open>omega\<close> is not the same array object as \<open>theta\<close> or as one
  of the scratch buffers.
\<close>

theorem integrators_preserve_omega:
  assumes "omega \<noteq> theta" "omega \<noteq> k1 tmp" "omega \<noteq> k2 tmp" "omega \<noteq> k3 tmp" "omega \<noteq> k4 tmp"
    "tempTheta tmp \<noteq> Some omega"
  shows "fst (snd (stepEuler theta omega dt noise ctx rng tmp (h, g))) omega = h omega
       \<and> fst (snd (stepRK2 theta omega dt noise ctx rng tmp (h, g))) omega = h omega
       \<and> fst (snd (stepRK4 theta omega dt noise ctx rng tmp (h, g))) omega = h omega"
  using assms by (simp add: stepEuler_frame stepRK2_frame stepRK4_frame)

theorem integrators_preserve_omega_witness:
  "fst (snd (stepEuler 0 1 (1/10) (1/2) \<lparr>K = 1, adj = None, scratch = None\<rparr> (\<lambda>g :: nat. (1, Suc g))
              \<lparr>k1 = 2, k2 = 3, k3 = 4, k4 = 5, tempTheta = Some 6\<rparr> (\<lambda>a. [0, 0], 0))) 1 = [0, 0]
   \<and> fst (snd (stepRK2 0 1 (1/10) (1/2) \<lparr>K = 1, adj = None, scratch = None\<rparr> (\<lambda>g :: nat. (1, Suc g))
              \<lparr>k1 = 2, k2 = 3, k3 = 4, k4 = 5, tempTheta = Some 6\<rparr> (\<lambda>a. [0, 0], 0))) 1 = [0, 0]
   \<and> fst (snd (stepRK4 0 1 (1/10) (1/2) \<lparr>K = 1, adj = None, scratch = None\<rparr> (\<lambda>g :: nat. (1, Suc g))
              \<lparr>k1 = 2, k2 = 3, k3 = 4, k4 = 5, tempTheta = Some 6\<rparr> (\<lambda>a. [0, 0], 0))) 1 = [0, 0]"
  using integrators_preserve_omega
          [of 1 0 "\<lparr>k1 = 2, k2 = 3, k3 = 4, k4 = 5, tempTheta = Some 6\<rparr>" "1/10" "1/2"
              "\<lparr>K = 1, adj = None, scratch = None\<rparr>" "\<lambda>g :: nat. (1, Suc g)" "\<lambda>a. [0, 0]" 0]
  by simp

lemma field_uncoupled:
  assumes "adj ctx = None" "K ctx = 0" "out \<noteq> theta" "out \<noteq> omega"
    and "length (h omega) = length (h theta)" "length (h out) = length (h theta)"
  shows "field out theta omega ctx h = (None, h(out := h omega))"
proof -
  have "map (\<lambda>i. if i < length (h theta)
                 then h omega ! i + K ctx * r (computeOrder (h theta))
                        * sin (psi (computeOrder (h theta)) - h theta ! i)
                 else h out ! i) [0..<length (h out)]
        = h omega"
    using assms(2,5,6) by (auto intro!: nth_equalityI)
  then show ?thesis by (simp only: field_all_result[OF assms(1,3,4)])
qed

lemma stage_result:
  assumes "tt \<noteq> theta" "tt \<noteq> k"
  shows "stage tt theta k c h
         = (None, h(tt := map (\<lambda>i. if i < length (h theta) then wrapAngle (h theta ! i + c * h k ! i)
                                     else h tt ! i) [0..<length (h tt)]))"
proof -
  have "stage_body tt theta k c = (\<lambda>i h. h(tt := (h tt)[i := wrapAngle (h theta ! i + c * h k ! i)]))"
    by (simp add: stage_body_def fun_eq_iff)
  moreover have "fold (\<lambda>i h. h(tt := (h tt)[i := wrapAngle (h theta ! i + c * h k ! i)])) [0..<n] h
     = h(tt := map (\<lambda>i. if i < n then wrapAngle (h theta ! i + c * h k ! i)
                              else h tt ! i) [0..<length (h tt)])" for n
    using assms by (intro write_loop) (simp add: agree_off_def)
  ultimately show ?thesis by (simp add: stage_def)
qed

lemma commit_related:
  assumes same: "h1 theta = h2 theta"
    and incr: "\<And>X i. i < n \<Longrightarrow> incr1 (h1(theta := X)) i = incr2 (h2(theta := X)) i"
  shows "\<exists>X g'. fold (commit_body theta incr1 sig rng) [0..<n] (h1, g) = (h1(theta := X), g')
              \<and> fold (commit_body theta incr2 sig rng) [0..<n] (h2, g) = (h2(theta := X), g')"
  using incr
proof (induction n)
  case 0
  have "h1(theta := h2 theta) = h1" using same by (metis fun_upd_triv)
  moreover have "h2(theta := h2 theta) = h2" by simp
  ultimately show ?case by (intro exI[of _ "h2 theta"] exI[of _ g]) simp
next
  case (Suc n)
  then obtain X g' where
    f1: "fold (commit_body theta incr1 sig rng) [0..<n] (h1, g) = (h1(theta := X), g')" and
    f2: "fold (commit_body theta incr2 sig rng) [0..<n] (h2, g) = (h2(theta := X), g')"
    by (metis less_Suc_eq)
  obtain dW g'' where d: "draw_dW sig rng g' = (dW, g'')" by (cases "draw_dW sig rng g'")
  have e: "incr1 (h1(theta := X)) n = incr2 (h2(theta := X)) n" by (rule Suc.prems) simp
  let ?X' = "X[n := wrapAngle (X ! n + incr2 (h2(theta := X)) n + dW)]"
  have "fold (commit_body theta incr1 sig rng) [0..<Suc n] (h1, g) = (h1(theta := ?X'), g'')"
    using f1 d e by (simp add: commit_body_def)
  moreover have "fold (commit_body theta incr2 sig rng) [0..<Suc n] (h2, g) = (h2(theta := ?X'), g'')"
    using f2 d by (simp add: commit_body_def)
  ultimately show ?case by blast
qed

text \<open>
  Claim C4. For an all-to-all context with \<open>K = 0\<close>, any \<open>dt\<close> and noise amplitude and a
  deviate source \<open>rng\<close> started in the same state, \<open>stepRK4\<close> and \<open>stepEuler\<close> both
  return normally, leave the same phase array and leave the deviate source in the same
  state. The scratch object carries all five buffers, and the seven arrays are
  distinct objects of length \<open>N\<close>.
\<close>

theorem stepRK4_uncoupled_eq_stepEuler:
  assumes ctx: "adj ctx = None" "K ctx = 0"
    and tt: "tempTheta tmp = Some tt"
    and dist: "distinct [theta, omega, k1 tmp, k2 tmp, k3 tmp, k4 tmp, tt]"
    and len: "length (h omega) = length (h theta)" "length (h tt) = length (h theta)"
      "length (h (k1 tmp)) = length (h theta)" "length (h (k2 tmp)) = length (h theta)"
      "length (h (k3 tmp)) = length (h theta)" "length (h (k4 tmp)) = length (h theta)"
  shows "fst (stepRK4 theta omega dt noise ctx rng tmp (h, g)) = None
       \<and> fst (stepEuler theta omega dt noise ctx rng tmp (h, g)) = None
       \<and> fst (snd (stepRK4 theta omega dt noise ctx rng tmp (h, g))) theta
           = fst (snd (stepEuler theta omega dt noise ctx rng tmp (h, g))) theta
       \<and> snd (snd (stepRK4 theta omega dt noise ctx rng tmp (h, g)))
           = snd (snd (stepEuler theta omega dt noise ctx rng tmp (h, g)))"
proof -
  let ?N = "length (h theta)"
  let ?sig = "noise_sig dt noise"
  let ?h1 = "h(k1 tmp := h omega)"
  have f1: "field (k1 tmp) theta omega ctx h = (None, ?h1)"
    using ctx dist len by (intro field_uncoupled) auto
  let ?s1 = "?h1(tt := map (\<lambda>i. if i < ?N then wrapAngle (h theta ! i + 0.5 * dt * h omega ! i)
                                     else h tt ! i) [0..<length (h tt)])"
  have s1: "stage tt theta (k1 tmp) (0.5 * dt) ?h1 = (None, ?s1)"
    using dist by (subst stage_result) auto
  let ?h2 = "?s1(k2 tmp := h omega)"
  have f2: "field (k2 tmp) tt omega ctx ?s1 = (None, ?h2)"
    using ctx dist len by (subst field_uncoupled) auto
  let ?s2 = "?h2(tt := map (\<lambda>i. if i < ?N then wrapAngle (h theta ! i + 0.5 * dt * h omega ! i)
                                     else ?h2 tt ! i) [0..<length (h tt)])"
  have s2: "stage tt theta (k2 tmp) (0.5 * dt) ?h2 = (None, ?s2)"
    using dist len by (subst stage_result) auto
  let ?h3 = "?s2(k3 tmp := h omega)"
  have f3: "field (k3 tmp) tt omega ctx ?s2 = (None, ?h3)"
    using ctx dist len by (subst field_uncoupled) auto
  let ?s3 = "?h3(tt := map (\<lambda>i. if i < ?N then wrapAngle (h theta ! i + dt * h omega ! i)
                                     else ?h3 tt ! i) [0..<length (h tt)])"
  have s3: "stage tt theta (k3 tmp) dt ?h3 = (None, ?s3)"
    using dist len by (subst stage_result) auto
  let ?h4 = "?s3(k4 tmp := h omega)"
  have f4: "field (k4 tmp) tt omega ctx ?s3 = (None, ?h4)"
    using ctx dist len by (subst field_uncoupled) auto
  have chain: "and_then (stage tt theta (k1 tmp) (0.5 * dt))
                 (and_then (field (k2 tmp) tt omega ctx)
                 (and_then (stage tt theta (k2 tmp) (0.5 * dt))
                 (and_then (field (k3 tmp) tt omega ctx)
                 (and_then (stage tt theta (k3 tmp) dt)
                           (field (k4 tmp) tt omega ctx))))) ?h1 = (None, ?h4)"
    by (simp only: and_then_def s1 f2 s2 f3 s3 f4 prod.case option.case)
  let ?i4 = "\<lambda>h i. (dt / 6) * (h (k1 tmp) ! i + 2 * h (k2 tmp) ! i + 2 * h (k3 tmp) ! i + h (k4 tmp) ! i)"
  let ?i1 = "\<lambda>h i. dt * h (k1 tmp) ! i"
  have rk4: "stepRK4 theta omega dt noise ctx rng tmp (h, g)
             = (None, fold (commit_body theta ?i4 ?sig rng) [0..<?N] (?h4, g))"
  proof -
    have "stepRK4 theta omega dt noise ctx rng tmp (h, g)
          = (None, fold (commit_body theta ?i4 ?sig rng) [0..<length (?h4 theta)] (?h4, g))"
      by (simp only: stepRK4_def prod.case f1 option.case tt chain Let_def)
    moreover have "?h4 theta = h theta" using dist by simp
    ultimately show ?thesis by (simp only:)
  qed
  have eul: "stepEuler theta omega dt noise ctx rng tmp (h, g)
             = (None, fold (commit_body theta ?i1 ?sig rng) [0..<?N] (?h1, g))"
  proof -
    have "stepEuler theta omega dt noise ctx rng tmp (h, g)
          = (None, fold (commit_body theta ?i1 ?sig rng) [0..<length (?h1 theta)] (?h1, g))"
      by (simp only: stepEuler_def prod.case f1 option.case Let_def)
    moreover have "?h1 theta = h theta" using dist by simp
    ultimately show ?thesis by (simp only:)
  qed
  have d: "k1 tmp \<noteq> theta" "k2 tmp \<noteq> theta" "k3 tmp \<noteq> theta" "k4 tmp \<noteq> theta"
    "k1 tmp \<noteq> k2 tmp" "k1 tmp \<noteq> k3 tmp" "k1 tmp \<noteq> k4 tmp" "k1 tmp \<noteq> tt"
    "k2 tmp \<noteq> k3 tmp" "k2 tmp \<noteq> k4 tmp" "k2 tmp \<noteq> tt" "k3 tmp \<noteq> k4 tmp" "k3 tmp \<noteq> tt"
    using dist by auto
  define hR where "hR = ?h4"
  define hE where "hE = ?h1"
  have same: "hR theta = hE theta" using dist by (simp add: hR_def hE_def)
  have ks: "hR (k1 tmp) = h omega" "hR (k2 tmp) = h omega" "hR (k3 tmp) = h omega"
    "hR (k4 tmp) = h omega" "hE (k1 tmp) = h omega"
    using d by (simp_all add: hR_def hE_def)
  have incr: "?i4 (hR(theta := X)) i = ?i1 (hE(theta := X)) i" for X i
    using d ks by (simp add: algebra_simps)
  have "\<exists>X g'. fold (commit_body theta ?i4 ?sig rng) [0..<?N] (hR, g) = (hR(theta := X), g')
              \<and> fold (commit_body theta ?i1 ?sig rng) [0..<?N] (hE, g) = (hE(theta := X), g')"
    using same incr by (rule commit_related)
  then obtain X g' where
    "fold (commit_body theta ?i4 ?sig rng) [0..<?N] (hR, g) = (hR(theta := X), g')"
    "fold (commit_body theta ?i1 ?sig rng) [0..<?N] (hE, g) = (hE(theta := X), g')"
    by blast
  moreover have "stepRK4 theta omega dt noise ctx rng tmp (h, g)
             = (None, fold (commit_body theta ?i4 ?sig rng) [0..<?N] (hR, g))"
    using rk4 by (simp only: hR_def)
  moreover have "stepEuler theta omega dt noise ctx rng tmp (h, g)
             = (None, fold (commit_body theta ?i1 ?sig rng) [0..<?N] (hE, g))"
    using eul by (simp only: hE_def)
  ultimately show ?thesis by simp
qed

theorem stepRK4_uncoupled_eq_stepEuler_witness:
  "fst (stepRK4 0 1 (1/10) (1/2) \<lparr>K = 0, adj = None, scratch = None\<rparr> (\<lambda>g :: nat. (real g, Suc g))
           \<lparr>k1 = 2, k2 = 3, k3 = 4, k4 = 5, tempTheta = Some 6\<rparr> ((\<lambda>a. [0, 0])(1 := [1, -1]), 0)) = None
   \<and> fst (snd (stepRK4 0 1 (1/10) (1/2) \<lparr>K = 0, adj = None, scratch = None\<rparr> (\<lambda>g :: nat. (real g, Suc g))
           \<lparr>k1 = 2, k2 = 3, k3 = 4, k4 = 5, tempTheta = Some 6\<rparr> ((\<lambda>a. [0, 0])(1 := [1, -1]), 0))) 0
     = fst (snd (stepEuler 0 1 (1/10) (1/2) \<lparr>K = 0, adj = None, scratch = None\<rparr> (\<lambda>g :: nat. (real g, Suc g))
           \<lparr>k1 = 2, k2 = 3, k3 = 4, k4 = 5, tempTheta = Some 6\<rparr> ((\<lambda>a. [0, 0])(1 := [1, -1]), 0))) 0"
  using stepRK4_uncoupled_eq_stepEuler
          [of "\<lparr>K = 0, adj = None, scratch = None\<rparr>"
              "\<lparr>k1 = 2, k2 = 3, k3 = 4, k4 = 5, tempTheta = Some 6\<rparr>" 6 0 1
              "(\<lambda>a. [0, 0])(1 := [1, -1])" "1/10" "1/2" "\<lambda>g :: nat. (real g, Suc g)" 0]
  by simp

lemma commit_no_noise:
  "fold (commit_body theta incr 0 rng) xs (h, g)
     = (fold (\<lambda>i h. h(theta := (h theta)[i := wrapAngle (h theta ! i + incr h i)])) xs h, g)"
  by (induction xs arbitrary: h) (simp_all add: commit_body_def draw_dW_def)

text \<open>
  For all-to-all contexts the Euler step with \<open>K = 0\<close> and no noise is the update
  \<open>\<theta>\<^sub>i \<leftarrow> wrapAngle (\<theta>\<^sub>i + dt \<omega>\<^sub>i)\<close>, and the deviate source is not called.
\<close>

lemma stepEuler_uncoupled_all:
  assumes "adj ctx = None" "K ctx = 0" "noise \<le> 0"
    and "theta \<noteq> omega" "k1 tmp \<noteq> theta" "k1 tmp \<noteq> omega"
    and "length (h omega) = length (h theta)" "length (h (k1 tmp)) = length (h theta)"
  shows "stepEuler theta omega dt noise ctx rng tmp (h, g)
         = (None, h(k1 tmp := h omega,
                    theta := map (\<lambda>i. wrapAngle (h theta ! i + dt * h omega ! i))
                               [0..<length (h theta)]), g)"
proof -
  let ?h1 = "h(k1 tmp := h omega)"
  have f1: "field (k1 tmp) theta omega ctx h = (None, ?h1)"
    using assms by (intro field_uncoupled) auto
  have sg: "noise_sig dt noise = 0" using assms(3) by (simp add: noise_sig_def)
  have t1: "?h1 theta = h theta" using assms(5) by simp
  have "fold (\<lambda>i h. h(theta := (h theta)[i := wrapAngle (h theta ! i + dt * h (k1 tmp) ! i)]))
          [0..<length (h theta)] ?h1
        = ?h1(theta := map (\<lambda>i. if i < length (h theta)
                                 then wrapAngle (?h1 theta ! i + dt * ?h1 (k1 tmp) ! i)
                                 else ?h1 theta ! i) [0..<length (?h1 theta)])"
    using assms(5) by (intro write_loop) (simp add: agree_off_def)
  also have "map (\<lambda>i. if i < length (h theta)
                                 then wrapAngle (?h1 theta ! i + dt * ?h1 (k1 tmp) ! i)
                                 else ?h1 theta ! i) [0..<length (?h1 theta)]
             = map (\<lambda>i. wrapAngle (h theta ! i + dt * h omega ! i)) [0..<length (h theta)]"
    using assms(5) by (auto intro!: nth_equalityI)
  finally have lp: "fold (\<lambda>i h. h(theta := (h theta)[i := wrapAngle (h theta ! i + dt * h (k1 tmp) ! i)]))
          [0..<length (h theta)] ?h1
        = ?h1(theta := map (\<lambda>i. wrapAngle (h theta ! i + dt * h omega ! i)) [0..<length (h theta)])" .
  have "stepEuler theta omega dt noise ctx rng tmp (h, g)
        = (None, fold (commit_body theta (\<lambda>h i. dt * h (k1 tmp) ! i) 0 rng)
                   [0..<length (?h1 theta)] (?h1, g))"
    by (simp only: stepEuler_def prod.case f1 option.case Let_def sg)
  then show ?thesis by (simp only: t1 commit_no_noise lp)
qed

text \<open>Without \<open>tempTheta\<close> the higher-order integrators throw after the first field evaluation.\<close>

lemma stepRK4_without_tempTheta:
  assumes "adj ctx = None" "tempTheta tmp = None"
  shows "fst (stepRK4 theta omega dt noise ctx rng tmp (h, g)) = Some TypeError"
  using assms by (simp add: stepRK4_def field_def Let_def)

lemma wrapAngle_one: "wrapAngle 1 = 1"
  using pi_ge_two by (intro wrapAngle_fixed) linarith+

text \<open>
  Claim C3, at a concrete input. The context is the ring on two oscillators with
  \<open>K = 0\<close>; the phases are \<open>[0, 0]\<close>, the frequencies \<open>[1, 1]\<close>, \<open>dt = 1\<close>, the noise
  amplitude is \<open>0\<close> and the scratch buffers are zero, as allocated. The claim asks for
  \<open>\<theta>\<^sub>i = wrapAngle (0 + 1 \<cdot> 1) = 1\<close>; the step leaves \<open>\<theta> = [0, 0]\<close>, since the field
  evaluator never writes \<open>k1\<close> for an explicit adjacency.
\<close>

theorem stepEuler_graph_ignores_omega:
  "fst (snd (stepEuler 1 2 1 0 \<lparr>K = 0, adj = Some [[1], [0]], scratch = None\<rparr> (\<lambda>g :: unit. (0, g))
               \<lparr>k1 = 0, k2 = 3, k3 = 4, k4 = 5, tempTheta = Some 6\<rparr>
               ((\<lambda>a. [0, 0])(2 := [1, 1]), ()))) 1 = [0, 0]
   \<and> wrapAngle (0 + 1 * 1) = 1"
proof -
  have z: "wrapAngle 0 = 0" by (simp add: wrapAngle_def atan2_def)
  show ?thesis
    by (simp add: stepEuler_def field_graph_result noise_sig_def commit_body_def draw_dW_def
          z wrapAngle_one)
qed

section \<open>Properties of the topology builder\<close>

lemma ring_body_row:
  assumes "2 \<le> N" "i < N" "i < length a"
  shows "ring_body N i a = a[i := a ! i @ ring_row N i]"
proof -
  have L: "nat ((int i - 1 + int N) smod int N) = nat ((int i - 1) mod int N)"
  proof -
    have "(int i - 1 + int N) smod int N = (int i - 1 + int N) mod int N"
      using assms by (intro smod_mod_positive) simp_all
    then show ?thesis by simp
  qed
  have R: "nat ((int i + 1) smod int N) = (i + 1) mod N"
  proof -
    have "(int i + 1) smod int N = (int i + 1) mod int N"
      by (intro smod_mod_positive) simp_all
    also have "\<dots> = int ((i + 1) mod N)" by (simp add: zmod_int add.commute)
    finally show ?thesis by simp
  qed
  have rb: "ring_body N i a =
      (if nat ((int i - 1) mod int N) = (i + 1) mod N then push a i (nat ((int i - 1) mod int N))
       else push (push a i (nat ((int i - 1) mod int N))) i ((i + 1) mod N))"
    by (simp only: ring_body_def L R Let_def)
  show ?thesis
  proof (cases "N = 2")
    case True
    have "nat ((int i - 1) mod int N) = 1 - i \<and> (i + 1) mod N = 1 - i"
    proof (cases "i = 0")
      case z: True
      have "(- 1) mod (2::int) = 1" by simp
      then show ?thesis using z True by simp
    next
      case False
      then have "i = 1" using True assms by simp
      then show ?thesis using True by simp
    qed
    then have v: "nat ((int i - 1) mod int N) = 1 - i" "(i + 1) mod N = 1 - i" by simp_all
    show ?thesis unfolding rb v using True by (simp add: ring_row_def push_def)
  next
    case False
    then have N: "2 < N" using assms by simp
    have ne: "nat ((int i - 1) mod int N) \<noteq> (i + 1) mod N"
    proof (cases "i = 0")
      case True
      have "(- 1) mod int N = int N - 1" using N by (simp add: zmod_minus1)
      then show ?thesis using True N by simp
    next
      case i: False
      then have a: "nat ((int i - 1) mod int N) = i - 1" using assms by (simp add: nat_diff_distrib)
      show ?thesis
      proof (cases "i + 1 = N")
        case True
        then show ?thesis using a i N by simp
      next
        case False
        then have "(i + 1) mod N = i + 1" using assms by simp
        then show ?thesis using a by simp
      qed
    qed
    show ?thesis unfolding rb using False ne assms(3)
      by (simp add: ring_row_def push_def)
  qed
qed

lemma ring_loop:
  assumes "2 \<le> N" "n \<le> N"
  shows "fold (ring_body N) [0..<n] (replicate N [])
         = map (\<lambda>i. if i < n then ring_row N i else []) [0..<N]"
  using assms(2)
proof (induction n)
  case 0
  show ?case by (auto intro!: nth_equalityI)
next
  case (Suc n)
  let ?a = "map (\<lambda>i. if i < n then ring_row N i else []) [0..<N]"
  have "fold (ring_body N) [0..<Suc n] (replicate N []) = ring_body N n ?a"
    using Suc by simp
  also have "\<dots> = ?a[n := ?a ! n @ ring_row N n]"
    using Suc.prems assms(1) by (intro ring_body_row) simp_all
  also have "\<dots> = map (\<lambda>i. if i < Suc n then ring_row N i else []) [0..<N]"
    using Suc.prems by (auto intro!: nth_equalityI simp: nth_list_update less_Suc_eq)
  finally show ?case .
qed

text \<open>
  Claim C7. For \<open>N \<ge> 2\<close> the ring adjacency has one row per oscillator; row \<open>i\<close> lists
  \<open>(i - 1) mod N\<close> and \<open>(i + 1) mod N\<close>, and for \<open>N = 2\<close>, where the two coincide, it
  lists the other node once.
\<close>

theorem ring_adjacency:
  assumes "2 \<le> N"
  shows "fst (buildAdjacency random Ring N p u)
         = Some (map (\<lambda>i. if N = 2 then [1 - i]
                           else [nat ((int i - 1) mod int N), (i + 1) mod N]) [0..<N])"
  using ring_loop[OF assms, of N] by (simp add: buildAdjacency_def ring_row_def)

theorem ring_adjacency_witness:
  "(2 :: nat) \<le> 2 \<and> fst (buildAdjacency (\<lambda>u :: unit. (0, u)) Ring 2 (1/20) ()) = Some [[1], [0]]"
  using ring_adjacency[of 2 "\<lambda>u :: unit. (0, u)" "1/20" "()"] by (simp add: upt_rec)

section \<open>Properties of manual seeding\<close>

lemma list_write_loop:
  "fold (\<lambda>i xs. xs[i := f i (xs ! i)]) [0..<n] xs
     = map (\<lambda>i. if i < n then f i (xs ! i) else xs ! i) [0..<length xs]"
proof (induction n)
  case 0
  show ?case by (simp add: map_nth)
next
  case (Suc n)
  let ?L = "map (\<lambda>i. if i < n then f i (xs ! i) else xs ! i) [0..<length xs]"
  have "fold (\<lambda>i xs. xs[i := f i (xs ! i)]) [0..<Suc n] xs = ?L[n := f n (?L ! n)]"
    using Suc by simp
  also have "\<dots> = map (\<lambda>i. if i < Suc n then f i (xs ! i) else xs ! i) [0..<length xs]"
    by (auto intro!: nth_equalityI simp: nth_list_update less_Suc_eq)
  finally show ?case .
qed

lemma list_fill_loop:
  "fold (\<lambda>i xs. xs[i := g i]) [0..<length xs] xs = map g [0..<length xs]"
  using list_write_loop[of "\<lambda>i x. g i" "length xs" xs] by (simp cong: map_cong)

lemma fill_manual_closed:
  "fill_manual tokens th = map (seed_value tokens) [0..<length th]"
  by (simp add: fill_manual_def Let_def list_fill_loop seed_value_def last_conv_nth cong: map_cong)

lemma applyManualTheta_closed:
  "applyManualTheta Number txt th
     = map (\<lambda>i. wrapAngle (seed_value (manual_tokens Number txt) i)) [0..<length th]"
proof -
  let ?th1 = "fill_manual (manual_tokens Number txt) th"
  have len: "length ?th1 = length th" by (simp add: fill_manual_closed)
  have "fold (\<lambda>i th. th[i := atan2 (sin (th ! i)) (cos (th ! i))]) [0..<length th] ?th1
        = map (\<lambda>i. if i < length th then atan2 (sin (?th1 ! i)) (cos (?th1 ! i)) else ?th1 ! i)
            [0..<length ?th1]"
    by (rule list_write_loop[of "\<lambda>i x. atan2 (sin x) (cos x)"])
  then show ?thesis
    by (simp add: applyManualTheta_def Let_def len wrapAngle_def fill_manual_closed cong: map_cong)
qed
lemma split_seps_no_sep:
  assumes "\<forall>c\<in>set cur. \<not> is_sep c"
  shows "\<forall>t\<in>set (split_seps str cur). \<forall>c\<in>set t. \<not> is_sep c"
  using assms
proof (induction str cur rule: split_seps.induct)
  case (1 cur)
  then show ?case by simp
next
  case (2 c cs cur)
  show ?case
  proof (cases "is_sep c")
    case True
    have "\<forall>t\<in>set (split_seps (dropWhile is_sep cs) []). \<forall>c\<in>set t. \<not> is_sep c"
      using "2.IH"(1)[OF True] by simp
    moreover have "split_seps (c # cs) cur = cur # split_seps (dropWhile is_sep cs) []"
      using True by simp
    ultimately show ?thesis using "2.prems" by simp
  next
    case False
    have "\<forall>x\<in>set (cur @ [c]). \<not> is_sep x" using False "2.prems" by simp
    then have "\<forall>t\<in>set (split_seps cs (cur @ [c])). \<forall>c\<in>set t. \<not> is_sep c"
      by (rule "2.IH"(2)[OF False])
    moreover have "split_seps (c # cs) cur = split_seps cs (cur @ [c])"
      using False by simp
    ultimately show ?thesis by simp
  qed
qed

lemma dropWhile_none: "\<forall>c\<in>set t. \<not> P c \<Longrightarrow> dropWhile P t = t"
  by (cases t) simp_all

lemma trim_no_space:
  assumes "\<forall>c\<in>set t. \<not> is_space c"
  shows "trim t = t"
proof -
  have "dropWhile is_space t = t" using assms by (rule dropWhile_none)
  moreover have "dropWhile is_space (rev t) = rev t" using assms by (intro dropWhile_none) simp
  ultimately show ?thesis by (simp add: trim_def)
qed

lemma manual_tokens_pieces:
  "manual_tokens Number txt
     = filter isFinite (map Number (filter (\<lambda>t. t \<noteq> []) (split_seps txt [])))"
proof -
  have "\<forall>t\<in>set (split_seps txt []). \<forall>c\<in>set t. \<not> is_sep c"
    by (rule split_seps_no_sep) simp
  then have "\<forall>t\<in>set (split_seps txt []). trim t = t"
    by (auto intro!: trim_no_space simp: is_sep_def)
  then have "map trim (split_seps txt []) = split_seps txt []"
    by (simp add: map_idI)
  then show ?thesis by (simp add: manual_tokens_def)
qed

text \<open>
  Claim C8. The tokens are the finite conversions of the non-empty pieces of the text
  between runs of white space and commas. \<open>applyManualTheta\<close> keeps the length of the
  phase array and sets entry \<open>i\<close> to the wrapped \<open>i\<close>-th token, to the wrapped last
  token past their count, and to the wrapped \<open>0\<close> (which is \<open>0\<close>) when there is no
  token; every entry then lies in \<open>(-\<pi>, \<pi>]\<close>. \<open>applyManualOmega\<close> stores the same
  values unwrapped.
\<close>

theorem applyManualTheta_fill_pad_wrap:
  "manual_tokens Number str
     = filter isFinite (map Number (filter (\<lambda>t. t \<noteq> []) (split_seps str [])))
   \<and> length (applyManualTheta Number str th) = length th
   \<and> (\<forall>i<length th.
        applyManualTheta Number str th ! i = wrapAngle (seed_value (manual_tokens Number str) i)
        \<and> - pi < applyManualTheta Number str th ! i \<and> applyManualTheta Number str th ! i \<le> pi)
   \<and> wrapAngle 0 = 0
   \<and> applyManualOmega Number str w = map (seed_value (manual_tokens Number str)) [0..<length w]"
  using manual_tokens_pieces[of Number str]
  by (simp add: applyManualTheta_closed wrapAngle_range wrapAngle_fixed applyManualOmega_def
        fill_manual_closed)

theorem applyManualTheta_fill_pad_wrap_witness:
  "manual_tokens (\<lambda>t. if t = [49] then Finite 1 else NaN) [32, 49, 44, 120, 10] = [Finite 1]
   \<and> applyManualTheta (\<lambda>t. if t = [49] then Finite 1 else NaN) [32, 49, 44, 120, 10] [7, 7, 7] ! 0
       = wrapAngle 1
   \<and> applyManualTheta (\<lambda>t. if t = [49] then Finite 1 else NaN) [32, 49, 44, 120, 10] [7, 7, 7] ! 2
       = wrapAngle 1
   \<and> length (applyManualTheta (\<lambda>t. if t = [49] then Finite 1 else NaN) [32, 49, 44, 120, 10] [7, 7, 7])
       = 3"
proof -
  have sep: "is_sep 32 \<and> \<not> is_sep 49 \<and> is_sep 44 \<and> \<not> is_sep 120 \<and> is_sep 10"
    by (simp add: is_sep_def is_space_def)
  have s: "split_seps [32, 49, 44, 120, 10] [] = [[], [49], [120], []]"
    using sep by simp
  have m: "manual_tokens (\<lambda>t. if t = [49] then Finite 1 else NaN) [32, 49, 44, 120, 10] = [Finite 1]"
    using applyManualTheta_fill_pad_wrap
            [of "\<lambda>t. if t = [49] then Finite 1 else NaN" "[32, 49, 44, 120, 10]" "[7, 7, 7]",
             THEN conjunct1]
    by (simp only: s) simp
  show ?thesis
    using applyManualTheta_fill_pad_wrap
            [of "\<lambda>t. if t = [49] then Finite 1 else NaN" "[32, 49, 44, 120, 10]" "[7, 7, 7]",
             THEN conjunct2]
    by (simp add: m seed_value_def)
qed

section \<open>Properties of the sample buffer\<close>

lemma push_sample_bound: "length buf \<le> 600 \<Longrightarrow> length (push_sample pt buf) \<le> 600"
  by (simp add: push_sample_def Let_def)

lemma stepping_rBuf: "rBuf (snd (snd (stepping stepOnce dt steps s))) = rBuf s"
proof (induction stepOnce dt steps s rule: stepping.induct)
  case (1 stepOnce dt steps s)
  show ?case
  proof (cases "dt \<le> acc s \<and> steps < 5000")
    case False
    then have "stepping stepOnce dt steps s = (None, steps, s)"
      by (subst stepping.simps) (simp only: if_False)
    then show ?thesis by simp
  next
    case True
    obtain e sim' where so: "stepOnce (sim s) = (e, sim')" by (cases "stepOnce (sim s)")
    show ?thesis
    proof (cases e)
      case None
      have "rBuf (snd (snd (stepping stepOnce dt (Suc steps)
               (s\<lparr>sim := sim', acc := acc s - dt, tRef := tRef s + dt\<rparr>)))) = rBuf s"
        using "1.IH"[OF True so[symmetric] None] by simp
      moreover have "stepping stepOnce dt steps s
          = stepping stepOnce dt (Suc steps) (s\<lparr>sim := sim', acc := acc s - dt, tRef := tRef s + dt\<rparr>)"
        using so None by (subst stepping.simps) (simp only: True simp_thms if_True prod.case option.case)
      ultimately show ?thesis by simp
    next
      case (Some x)
      have "stepping stepOnce dt steps s = (Some x, steps, s\<lparr>sim := sim'\<rparr>)"
        using so Some by (subst stepping.simps) (simp only: True simp_thms if_True prod.case option.case)
      then show ?thesis by simp
    qed
  qed
qed

lemma loop_bound:
  assumes "length (rBuf s) \<le> 600"
  shows "length (rBuf (snd (loop stepOnce order dt speed now s))) \<le> 600"
proof -
  let ?s1 = "s\<lparr>lastT := now, acc := acc s + min 0.5 (max 0 ((now - lastT s) / 1000)) * speed\<rparr>"
  obtain e steps s2 where st: "stepping stepOnce dt 0 ?s1 = (e, steps, s2)"
    by (cases "stepping stepOnce dt 0 ?s1") auto
  have "rBuf s2 = rBuf ?s1" using stepping_rBuf[of stepOnce dt 0 ?s1] st by simp
  then have b: "length (rBuf s2) \<le> 600" using assms by simp
  show ?thesis
  proof (cases e)
    case None
    then show ?thesis using st b
      by (simp add: loop_def Let_def push_sample_bound)
  next
    case (Some x)
    then show ?thesis using st b by (simp add: loop_def Let_def)
  qed
qed

lemma hook_bound: "hook_reachable s \<Longrightarrow> length (rBuf s) \<le> 600"
proof (induction rule: hook_reachable.induct)
  case (frame s stepOnce order dt speed now e s')
  then show ?case using loop_bound[of s stepOnce order dt speed now] by simp
qed (simp_all add: resetChart_def)

lemma record_sample_bound:
  "length (snd s) \<le> 600 \<Longrightarrow> length (snd (record_sample h rv s)) \<le> 600"
  by (cases s) (simp add: record_sample_def Let_def push_sample_bound)

lemma page_bound: "page_reachable s \<Longrightarrow> length (snd s) \<le> 600"
  by (induction rule: page_reachable.induct) (simp_all add: record_sample_bound)

text \<open>
  One frame, half a second after the start, with \<open>dt = 1/4\<close> and an integrator that does
  nothing: two steps run and one sample is appended.
\<close>

lemma loop_example:
  "loop (\<lambda>x :: unit. (None, x)) (\<lambda>x. 1) (1/4) 1 1000
     \<lparr>lastT = 0, acc = 0, tRef = 0, lastChart = 0, rBuf = [(0, 1)], sim = ()\<rparr>
   = (None, \<lparr>lastT = 1000, acc = 0, tRef = 1/2, lastChart = 1/2, rBuf = [(0, 1), (1/2, 1)], sim = ()\<rparr>)"
proof -
  have st: "stepping (\<lambda>x :: unit. (None, x)) (1/4) 0
              \<lparr>lastT = 1000, acc = 1/2, tRef = 0, lastChart = 0, rBuf = [(0, 1)], sim = ()\<rparr>
            = (None, 2, \<lparr>lastT = 1000, acc = 0, tRef = 1/2, lastChart = 0, rBuf = [(0, 1)], sim = ()\<rparr>)"
    by (simp add: numeral_2_eq_2)
  show ?thesis
    by (simp add: loop_def Let_def st push_sample_def)
qed

text \<open>
  Claim C9. In every state the hook can reach, and in every state the page component
  can reach, the sample buffer holds at most 600 entries.
\<close>

theorem sample_buffer_bounded:
  "(hook_reachable s \<longrightarrow> length (rBuf s) \<le> 600)
   \<and> (page_reachable p \<longrightarrow> length (snd p) \<le> 600)"
  by (simp add: hook_bound page_bound)

theorem sample_buffer_bounded_witness:
  "hook_reachable \<lparr>lastT = 1000, acc = 0, tRef = 1/2, lastChart = 1/2,
                   rBuf = [(0, 1), (1/2, 1)], sim = ()\<rparr>
   \<and> page_reachable (record_sample (1/50) 1 (0, []))
   \<and> length (rBuf \<lparr>lastT = 1000, acc = 0, tRef = 1/2, lastChart = 1/2,
                    rBuf = [(0, 1), (1/2, 1)], sim = ()\<rparr>) \<le> 600
   \<and> length (snd (record_sample (1/50) 1 (0, []))) \<le> 600"
proof -
  have "hook_reachable \<lparr>lastT = 0, acc = 0, tRef = 0, lastChart = 0, rBuf = [(0, 1)], sim = ()\<rparr>"
    by (rule hook_reachable.initial)
  then have a: "hook_reachable \<lparr>lastT = 1000, acc = 0, tRef = 1/2, lastChart = 1/2,
                                rBuf = [(0, 1), (1/2, 1)], sim = ()\<rparr>"
    using loop_example by (rule hook_reachable.frame)
  have b: "page_reachable (record_sample (1/50) 1 (0, []))"
    by (rule page_reachable.page_step) (rule page_reachable.page_initial)
  show ?thesis
    using a b sample_buffer_bounded
      [of "\<lparr>lastT = 1000, acc = 0, tRef = 1/2, lastChart = 1/2,
            rBuf = [(0, 1), (1/2, 1)], sim = ()\<rparr>"
          "record_sample (1/50) 1 (0, [])"]
    by blast
qed

end
